theory Spec2Isabelle
  imports Main "HOL-Library.AList" "HOL-Library.Word"
begin

section \<open>Timestamp2Offset: the bounded timestamp index\<close>

text \<open>
  Source: \<^verbatim>\<open>internal/kinesis2sse/timestamp2offset.go\<close>.

  Go's \<^verbatim>\<open>int\<close> offsets are modelled as \<^typ>\<open>int\<close>: \<^verbatim>\<open>Add\<close> rejects negative
  offsets before it computes \<^verbatim>\<open>offset-1\<close> and \<^verbatim>\<open>offset - m.capacity\<close>, so neither
  subtraction can wrap for a non-negative 64-bit offset and a positive capacity.
  A \<^verbatim>\<open>time.Time\<close> is modelled by the instant it denotes, in nanoseconds, which is
  what \<^verbatim>\<open>Time.Compare\<close> compares.
\<close>

type_synonym time = int

record timestamp2OffsetsKey =
  timestamp :: time
  offset :: int

text \<open>\<^verbatim>\<open>cmp.Compare\<close> and \<^verbatim>\<open>Time.Compare\<close>: -1, 0 or +1.\<close>

definition compare :: "int \<Rightarrow> int \<Rightarrow> int" where
  "compare x y = (if x < y then - 1 else if y < x then 1 else 0)"

definition timestamp2OffsetsKeyCmp :: "timestamp2OffsetsKey \<Rightarrow> timestamp2OffsetsKey \<Rightarrow> int" where
  "timestamp2OffsetsKeyCmp a b =
     (let c = compare (timestamp a) (timestamp b)
      in if c = 0 then compare (offset a) (offset b) else c)"

subsection \<open>The ordered tree\<close>

text \<open>
  Modelled from the spec: the ordered structure keyed by (timestamp, offset) is the
  B+tree of the library \<^verbatim>\<open>modernc.org/b\<close>, which is not part of the repository. The
  index only uses \<^verbatim>\<open>TreeNew(cmp)\<close>, \<^verbatim>\<open>Set\<close>, \<^verbatim>\<open>Delete\<close>, \<^verbatim>\<open>Seek\<close> and the enumerator's
  \<^verbatim>\<open>Next\<close> and \<^verbatim>\<open>Prev\<close>. The tree is modelled by the list of its keys in collation
  order (the values are \<^verbatim>\<open>struct{}\<close>), and the operations follow the library's
  contract:
  \<^item> \<^verbatim>\<open>Set(k, v)\<close> stores \<open>k\<close>, replacing an equal key;
  \<^item> \<^verbatim>\<open>Delete(k)\<close> removes \<open>k\<close> and reports whether it was there;
  \<^item> \<^verbatim>\<open>Seek(k)\<close> returns an enumerator positioned on the first item whose key is
    not below \<open>k\<close> (possibly after the last item), and reports an exact hit;
  \<^item> \<^verbatim>\<open>Next()\<close> returns the item under the enumerator, or \<^verbatim>\<open>io.EOF\<close>;
  \<^item> \<^verbatim>\<open>Prev()\<close> first steps back one item when the seek was not a hit (the seek
    overshoots then), and returns the item under the enumerator, or \<^verbatim>\<open>io.EOF\<close>.
\<close>

type_synonym 'k tree = "'k list"

definition TreeNew :: "'k tree" where
  "TreeNew = []"

fun tree_Set :: "('k \<Rightarrow> 'k \<Rightarrow> int) \<Rightarrow> 'k \<Rightarrow> 'k tree \<Rightarrow> 'k tree" where
  "tree_Set cmp k [] = [k]"
| "tree_Set cmp k (x # xs) =
     (if cmp k x < 0 then k # x # xs
      else if cmp k x = 0 then k # xs
      else x # tree_Set cmp k xs)"

fun tree_Delete :: "('k \<Rightarrow> 'k \<Rightarrow> int) \<Rightarrow> 'k \<Rightarrow> 'k tree \<Rightarrow> 'k tree \<times> bool" where
  "tree_Delete cmp k [] = ([], False)"
| "tree_Delete cmp k (x # xs) =
     (if cmp k x = 0 then (xs, True)
      else (case tree_Delete cmp k xs of (ys, ok) \<Rightarrow> (x # ys, ok)))"

text \<open>
  An enumerator is a position in the key list: the items before it (nearest first),
  the items from it on, and whether the seek that made it was an exact hit.
\<close>

record 'k enumerator =
  before :: "'k list"
  from_here :: "'k list"
  hit :: bool

fun seek_from :: "('k \<Rightarrow> 'k \<Rightarrow> int) \<Rightarrow> 'k \<Rightarrow> 'k list \<Rightarrow> 'k list \<Rightarrow> 'k enumerator" where
  "seek_from cmp k acc [] = \<lparr>before = acc, from_here = [], hit = False\<rparr>"
| "seek_from cmp k acc (x # xs) =
     (if cmp k x < 0 then \<lparr>before = acc, from_here = x # xs, hit = False\<rparr>
      else if cmp k x = 0 then \<lparr>before = acc, from_here = x # xs, hit = True\<rparr>
      else seek_from cmp k (x # acc) xs)"

definition tree_Seek :: "('k \<Rightarrow> 'k \<Rightarrow> int) \<Rightarrow> 'k \<Rightarrow> 'k tree \<Rightarrow> 'k enumerator \<times> bool" where
  "tree_Seek cmp k t = (let e = seek_from cmp k [] t in (e, hit e))"

text \<open>\<open>None\<close> stands for the error \<^verbatim>\<open>io.EOF\<close>.\<close>

definition enum_Next :: "'k enumerator \<Rightarrow> 'k option" where
  "enum_Next e = (case from_here e of [] \<Rightarrow> None | x # _ \<Rightarrow> Some x)"

definition enum_Prev :: "'k enumerator \<Rightarrow> 'k option" where
  "enum_Prev e =
     (if hit e then (case from_here e of [] \<Rightarrow> None | x # _ \<Rightarrow> Some x)
      else (case before e of [] \<Rightarrow> None | x # _ \<Rightarrow> Some x))"

subsection \<open>The index\<close>

text \<open>
  The Go map \<^verbatim>\<open>offset2Timestamp\<close> is an association list with one pair per key
  (\<^verbatim>\<open>m[k] = v\<close> is \<^const>\<open>AList.update\<close>, \<^verbatim>\<open>delete(m, k)\<close> is \<^const>\<open>AList.delete\<close>,
  \<^verbatim>\<open>len(m)\<close> is the length). The embedded mutex carries no data.
\<close>

record Timestamp2Offset =
  capacity :: int
  lastOffset :: int
  offset2Timestamp :: "(int \<times> time) list"
  timestamp2Offsets :: "timestamp2OffsetsKey tree"

text \<open>The four error values of the index, one per message of the source.\<close>

datatype t2o_error =
    CapacityNotPositive
  | NegativeOffset
  | NotContiguous int int
  | OldOffsetNotFound int
  | OldTimestampNotFound time int

text \<open>
  The spec's taxonomy: the first two failures of \<^verbatim>\<open>Add\<close> are \<^verbatim>\<open>OutOfOrder\<close>, the
  failures of the eviction are \<^verbatim>\<open>CorruptState\<close>.
\<close>

fun OutOfOrder :: "t2o_error \<Rightarrow> bool" where
  "OutOfOrder NegativeOffset = True"
| "OutOfOrder (NotContiguous _ _) = True"
| "OutOfOrder _ = False"

fun CorruptState :: "t2o_error \<Rightarrow> bool" where
  "CorruptState (OldOffsetNotFound _) = True"
| "CorruptState (OldTimestampNotFound _ _) = True"
| "CorruptState _ = False"

definition NewTimestamp2Offset :: "int \<Rightarrow> t2o_error + Timestamp2Offset" where
  "NewTimestamp2Offset c =
     (if c \<le> 0 then Inl CapacityNotPositive
      else Inr \<lparr>capacity = c, lastOffset = - 1, offset2Timestamp = [],
                timestamp2Offsets = TreeNew\<rparr>)"

text \<open>
  \<^verbatim>\<open>NearestOffset\<close>: seek forward from (timestamp, 0); when there is nothing there,
  seek again and go backward; \<open>(-1, False)\<close> when both fail.
\<close>

definition NearestOffset :: "Timestamp2Offset \<Rightarrow> time \<Rightarrow> int \<times> bool" where
  "NearestOffset m ts =
     (let (e, _) = tree_Seek timestamp2OffsetsKeyCmp \<lparr>timestamp = ts, offset = 0\<rparr>
                     (timestamp2Offsets m)
      in case enum_Next e of
           Some k \<Rightarrow> (offset k, True)
         | None \<Rightarrow>
             (let (e', _) = tree_Seek timestamp2OffsetsKeyCmp \<lparr>timestamp = ts, offset = 0\<rparr>
                              (timestamp2Offsets m)
              in case enum_Prev e' of
                   Some k \<Rightarrow> (offset k, True)
                 | None \<Rightarrow> (- 1, False)))"

text \<open>
  \<^verbatim>\<open>Add\<close> mutates the index in place and returns an error or nil. The model returns
  the index as the call leaves it together with the error, so that what a failing call
  has already written stays visible: the baseline \<^verbatim>\<open>lastOffset\<close> is assigned before
  the eviction is attempted. \<open>Add_evict_insert\<close> is the second half of the function
  (the eviction at capacity and the insertion), entered with \<open>n = len(m.offset2Timestamp)\<close>.
\<close>

definition Add_evict_insert :: "Timestamp2Offset \<Rightarrow> int \<Rightarrow> int \<Rightarrow> time \<Rightarrow> Timestamp2Offset \<times> t2o_error option" where
  "Add_evict_insert m n off ts =
     (if n = capacity m then
        (let oldestOffset = off - capacity m in
         case map_of (offset2Timestamp m) oldestOffset of
           None \<Rightarrow> (m, Some (OldOffsetNotFound oldestOffset))
         | Some oldestOffsetTimestamp \<Rightarrow>
             (case tree_Delete timestamp2OffsetsKeyCmp
                     \<lparr>timestamp = oldestOffsetTimestamp, offset = oldestOffset\<rparr>
                     (timestamp2Offsets m) of
                (_, False) \<Rightarrow>
                  (m, Some (OldTimestampNotFound oldestOffsetTimestamp oldestOffset))
              | (t', True) \<Rightarrow>
                  (m\<lparr>lastOffset := off,
                     offset2Timestamp :=
                       AList.update off ts (AList.delete oldestOffset (offset2Timestamp m)),
                     timestamp2Offsets :=
                       tree_Set timestamp2OffsetsKeyCmp \<lparr>timestamp = ts, offset = off\<rparr> t'\<rparr>,
                   None)))
      else
        (m\<lparr>lastOffset := off,
           offset2Timestamp := AList.update off ts (offset2Timestamp m),
           timestamp2Offsets :=
             tree_Set timestamp2OffsetsKeyCmp \<lparr>timestamp = ts, offset = off\<rparr>
               (timestamp2Offsets m)\<rparr>,
         None))"

definition Add :: "Timestamp2Offset \<Rightarrow> int \<Rightarrow> time \<Rightarrow> Timestamp2Offset \<times> t2o_error option" where
  "Add m off ts =
     (if off < 0 then (m, Some NegativeOffset)
      else
        let n = int (length (offset2Timestamp m)) in
        if n = 0 then Add_evict_insert (m\<lparr>lastOffset := off\<rparr>) n off ts
        else if lastOffset m \<noteq> off - 1 then (m, Some (NotContiguous off (lastOffset m)))
        else Add_evict_insert m n off ts)"

text \<open>A sequence of \<^verbatim>\<open>Add\<close> calls, stopping at the first one that fails.\<close>

fun Add_seq :: "Timestamp2Offset \<Rightarrow> (int \<times> time) list \<Rightarrow> Timestamp2Offset \<times> t2o_error option" where
  "Add_seq m [] = (m, None)"
| "Add_seq m ((off, ts) # rest) =
     (case Add m off ts of
        (m', None) \<Rightarrow> Add_seq m' rest
      | (m', Some e) \<Rightarrow> (m', Some e))"

subsection \<open>Notions used to state the properties of the index\<close>

text \<open>The collation order of the tree, as \<^const>\<open>timestamp2OffsetsKeyCmp\<close> decides it.\<close>

definition key_lt :: "timestamp2OffsetsKey \<Rightarrow> timestamp2OffsetsKey \<Rightarrow> bool" where
  "key_lt a b \<longleftrightarrow>
     timestamp a < timestamp b \<or> (timestamp a = timestamp b \<and> offset a < offset b)"

text \<open>The tree key of an entry (offset, timestamp) of the map.\<close>

definition key_of :: "int \<times> time \<Rightarrow> timestamp2OffsetsKey" where
  "key_of p = \<lparr>timestamp = snd p, offset = fst p\<rparr>"

text \<open>
  The representation invariant of the index: the capacity is positive and not exceeded,
  the map holds the offsets \<open>lastOffset - len + 1 .. lastOffset\<close> in the order they were
  added, none of them negative, and the tree holds exactly the keys of the map's entries,
  in collation order.
\<close>

definition t2o_inv :: "Timestamp2Offset \<Rightarrow> bool" where
  "t2o_inv m \<longleftrightarrow>
     0 < capacity m \<and>
     int (length (offset2Timestamp m)) \<le> capacity m \<and>
     map fst (offset2Timestamp m) =
       [lastOffset m + 1 - int (length (offset2Timestamp m)) .. lastOffset m] \<and>
     (offset2Timestamp m \<noteq> [] \<longrightarrow> int (length (offset2Timestamp m)) \<le> lastOffset m + 1) \<and>
     sorted_wrt key_lt (timestamp2Offsets m) \<and>
     set (timestamp2Offsets m) = key_of ` set (offset2Timestamp m)"

text \<open>
  The two entries that the nearest-offset policy names, among a set \<open>E\<close> of entries
  (offset, timestamp): the earliest entry at or after the query, the smaller offset
  first among equal timestamps; and the latest entry of all, the greatest
  (timestamp, offset).
\<close>

definition earliest_at_or_after :: "time \<Rightarrow> (int \<times> time) set \<Rightarrow> int \<times> time \<Rightarrow> bool" where
  "earliest_at_or_after ts E e \<longleftrightarrow>
     e \<in> E \<and> ts \<le> snd e \<and>
     (\<forall>e'\<in>E. ts \<le> snd e' \<longrightarrow> snd e < snd e' \<or> (snd e = snd e' \<and> fst e \<le> fst e'))"

definition latest_entry :: "(int \<times> time) set \<Rightarrow> int \<times> time \<Rightarrow> bool" where
  "latest_entry E e \<longleftrightarrow>
     e \<in> E \<and> (\<forall>e'\<in>E. snd e' < snd e \<or> (snd e' = snd e \<and> fst e' \<le> fst e))"

text \<open>
  Any sequence of \<^verbatim>\<open>Add\<close> calls, failed ones included: the states an index can be in
  are those that \<open>Add_calls\<close> produces from a freshly constructed one.
\<close>

definition Add_calls :: "Timestamp2Offset \<Rightarrow> (int \<times> time) list \<Rightarrow> Timestamp2Offset" where
  "Add_calls m calls = foldl (\<lambda>m' (off, ts). fst (Add m' off ts)) m calls"

section \<open>The record processor: the ingestion pipeline\<close>

text \<open>
  Source: \<^verbatim>\<open>internal/kinesis2sse/record_processor.go\<close>.

  \<^verbatim>\<open>ProcessRecords\<close> calls four functions of Go's standard library. They are parameters
  of the model, collected in a record: \<^verbatim>\<open>json.Unmarshal\<close> into a \<^verbatim>\<open>map[string]any\<close>
  (\<open>None\<close> for an error), the type assertion \<^verbatim>\<open>.(string)\<close> on a decoded value,
  \<^verbatim>\<open>time.Parse(time.RFC3339, _)\<close> and \<^verbatim>\<open>json.Marshal\<close>. The type \<open>'any\<close> stands for
  the decoded values (\<^verbatim>\<open>any\<close>); the code only asserts that one is a string and hands
  another to \<^verbatim>\<open>json.Marshal\<close>. The fifth field says when the log refuses a write.
\<close>

type_synonym bytes = string

record 'any stdlib =
  json_Unmarshal :: "bytes \<Rightarrow> (string \<rightharpoonup> 'any) option"
  as_string :: "'any \<Rightarrow> string option"
  time_Parse_RFC3339 :: "string \<Rightarrow> time option"
  json_Marshal :: "'any \<Rightarrow> bytes option"
  ml_Write_error :: "bytes list \<Rightarrow> bytes \<Rightarrow> bool"

text \<open>
  Modelled from the spec: the Log is the library \<^verbatim>\<open>github.com/embano1/memlog\<close>, which is
  not part of the repository. Section 6 of the spec gives its contract:
  \<^verbatim>\<open>Write(payload)\<close> returns the offset of the record, offsets start at 0 and increase;
  \<^verbatim>\<open>Range()\<close> returns the earliest and the latest offset, the latest being -1 for an
  empty log. The log is modelled by the list of the payloads written so far, the
  payload at position \<open>i\<close> having offset \<open>i\<close>; what the log has purged is not modelled.
  A refused write leaves the log as it is.
\<close>

type_synonym Log = "bytes list"

definition ml_Write :: "'any stdlib \<Rightarrow> Log \<Rightarrow> bytes \<Rightarrow> Log \<times> int option" where
  "ml_Write x l data =
     (if ml_Write_error x l data then (l, None) else (l @ [data], Some (int (length l))))"

definition ml_Range_latest :: "Log \<Rightarrow> int" where
  "ml_Range_latest l = int (length l) - 1"

text \<open>
  A raw record (\<^verbatim>\<open>types.Record\<close>) with the two fields that are read; the sequence number
  is a \<^verbatim>\<open>*string\<close>. The checkpointer of the input is an object of the consumer library;
  its state is the list of the sequence numbers that \<^verbatim>\<open>Checkpoint\<close> was called with, and
  \<open>None\<close> is the nil checkpointer.
\<close>

record Record =
  Data :: bytes
  SequenceNumber :: "string option"

type_synonym checkpointer = "string option list"

definition Checkpoint :: "checkpointer \<Rightarrow> string option \<Rightarrow> checkpointer" where
  "Checkpoint cp sequenceNumber = cp @ [sequenceNumber]"

record ProcessRecordsInput =
  Records :: "Record list"
  Checkpointer :: "checkpointer option"

record dumpRecordProcessor =
  ml :: Log
  t2o :: Timestamp2Offset

text \<open>A call either returns or panics with the error of the index; both leave a state.\<close>

datatype 'a outcome = Returned 'a | Panicked t2o_error 'a

text \<open>
  The loop over the records of a batch. Every \<^verbatim>\<open>continue\<close> of the source is a recursive
  call on the remaining records with the processor unchanged; \<^verbatim>\<open>panic(err)\<close> ends the
  loop.
\<close>

fun process_loop ::
  "'any stdlib \<Rightarrow> dumpRecordProcessor \<Rightarrow> Record list \<Rightarrow> dumpRecordProcessor outcome" where
  "process_loop x dd [] = Returned dd"
| "process_loop x dd (v # vs) =
     (case json_Unmarshal x (Data v) of
        None \<Rightarrow> process_loop x dd vs
      | Some awsEvent \<Rightarrow>
          (case Option.bind (awsEvent ''time'') (as_string x) of
             None \<Rightarrow> process_loop x dd vs
           | Some timestampString \<Rightarrow>
               (case time_Parse_RFC3339 x timestampString of
                  None \<Rightarrow> process_loop x dd vs
                | Some ts \<Rightarrow>
                    (case awsEvent ''detail'' of
                       None \<Rightarrow> process_loop x dd vs
                     | Some cloudEvent \<Rightarrow>
                         (case json_Marshal x cloudEvent of
                            None \<Rightarrow> process_loop x dd vs
                          | Some bytes \<Rightarrow>
                              (case ml_Write x (ml dd) bytes of
                                 (_, None) \<Rightarrow> process_loop x dd vs
                               | (ml', Some off) \<Rightarrow>
                                   (case Add (t2o dd) off ts of
                                      (t2o', Some err) \<Rightarrow>
                                        Panicked err (dd\<lparr>ml := ml', t2o := t2o'\<rparr>)
                                    | (t2o', None) \<Rightarrow>
                                        process_loop x (dd\<lparr>ml := ml', t2o := t2o'\<rparr>) vs)))))))"

text \<open>
  \<^verbatim>\<open>ProcessRecords\<close>: nothing for an empty batch; otherwise the loop, then one call of
  \<^verbatim>\<open>Checkpoint\<close> with the sequence number of the last record when the input has a
  checkpointer. The result is the processor and the checkpointer as the call leaves
  them. The lock of the index and the debug log line carry no data.
\<close>

definition ProcessRecords ::
  "'any stdlib \<Rightarrow> dumpRecordProcessor \<Rightarrow> ProcessRecordsInput \<Rightarrow>
   (dumpRecordProcessor \<times> checkpointer option) outcome" where
  "ProcessRecords x dd input =
     (if length (Records input) = 0 then Returned (dd, Checkpointer input)
      else
        case process_loop x dd (Records input) of
          Panicked err dd' \<Rightarrow> Panicked err (dd', Checkpointer input)
        | Returned dd' \<Rightarrow>
            (let lastRecordSequenceNumber = SequenceNumber (last (Records input))
             in case Checkpointer input of
                  None \<Rightarrow> Returned (dd', None)
                | Some cp \<Rightarrow> Returned (dd', Some (Checkpoint cp lastRecordSequenceNumber))))"

subsection \<open>Notions used to state the properties of the pipeline\<close>

text \<open>
  The three kinds of record that the skip policy names: the body does not parse; the
  envelope has no \<^verbatim>\<open>time\<close> field that is a string; the envelope has no \<^verbatim>\<open>detail\<close> field.
\<close>

definition unparsable :: "'any stdlib \<Rightarrow> Record \<Rightarrow> bool" where
  "unparsable x v \<longleftrightarrow> json_Unmarshal x (Data v) = None"

definition lacks_timestamp :: "'any stdlib \<Rightarrow> Record \<Rightarrow> bool" where
  "lacks_timestamp x v \<longleftrightarrow>
     (case json_Unmarshal x (Data v) of
        None \<Rightarrow> False
      | Some awsEvent \<Rightarrow>
          (case awsEvent ''time'' of None \<Rightarrow> True | Some tv \<Rightarrow> as_string x tv = None))"

definition lacks_payload :: "'any stdlib \<Rightarrow> Record \<Rightarrow> bool" where
  "lacks_payload x v \<longleftrightarrow>
     (case json_Unmarshal x (Data v) of
        None \<Rightarrow> False
      | Some awsEvent \<Rightarrow> awsEvent ''detail'' = None)"

text \<open>
  The re-encoded payload of an accepted record: the body parses, \<^verbatim>\<open>time\<close> is a string in
  RFC 3339 form, \<^verbatim>\<open>detail\<close> is present and encodes. \<open>None\<close> for every other record.
\<close>

definition payload :: "'any stdlib \<Rightarrow> Record \<Rightarrow> bytes option" where
  "payload x v =
     (case json_Unmarshal x (Data v) of
        None \<Rightarrow> None
      | Some awsEvent \<Rightarrow>
          (case Option.bind (Option.bind (awsEvent ''time'') (as_string x)) (time_Parse_RFC3339 x) of
             None \<Rightarrow> None
           | Some _ \<Rightarrow> Option.bind (awsEvent ''detail'') (json_Marshal x)))"

text \<open>
  The index of a processor follows its log when it satisfies its invariant and is
  either empty or has the offset of the last record of the log as its last offset:
  the state of a new route, and of a route that only \<^verbatim>\<open>ProcessRecords\<close> writes to.
\<close>

definition in_sync :: "dumpRecordProcessor \<Rightarrow> bool" where
  "in_sync dd \<longleftrightarrow>
     t2o_inv (t2o dd) \<and>
     (offset2Timestamp (t2o dd) = [] \<or> lastOffset (t2o dd) = int (length (ml dd)) - 1)"

text \<open>The checkpoints a call has committed: the calls it added to the checkpointer.\<close>

definition committed ::
  "checkpointer option \<Rightarrow> (dumpRecordProcessor \<times> checkpointer option) outcome \<Rightarrow> string option list" where
  "committed cp0 res =
     (case (cp0, res) of
        (Some cp, Returned (_, Some cp')) \<Rightarrow> drop (length cp) cp'
      | (Some cp, Panicked _ (_, Some cp')) \<Rightarrow> drop (length cp) cp'
      | _ \<Rightarrow> [])"

subsection \<open>The batch of the processor's test\<close>

text \<open>
  The five records of \<^verbatim>\<open>TestRecordProcessor\<close> and what the standard library makes of them:
  a small type of decoded values, and the tables of the four functions on these inputs.
\<close>

datatype jvalue = JString string | JBool bool | JNumber int | JObject "(string \<times> jvalue) list"

definition unparseableEvent :: bytes where
  \<open>unparseableEvent = ''bogus''\<close>

definition eventWithoutTime :: bytes where
  \<open>eventWithoutTime = ''{"detail":{}}''\<close>

definition eventWithoutDetail :: bytes where
  \<open>eventWithoutDetail = ''{"time":"1970-01-01T00:00:00.000Z"}''\<close>

definition goodEvent1 :: bytes where
  \<open>goodEvent1 = ''{"time":"1970-01-01T00:00:00.000Z","detail":{"good":true,"event":1}}''\<close>

definition goodEvent2 :: bytes where
  \<open>goodEvent2 = ''{"time":"1970-01-01T00:00:00.001Z","detail":{"good":true,"event":2}}''\<close>

definition test_Unmarshal :: "bytes \<Rightarrow> (string \<rightharpoonup> jvalue) option" where
  "test_Unmarshal data =
     (if data = eventWithoutTime then Some (map_of [(''detail'', JObject [])])
      else if data = eventWithoutDetail
        then Some (map_of [(''time'', JString ''1970-01-01T00:00:00.000Z'')])
      else if data = goodEvent1
        then Some (map_of [(''time'', JString ''1970-01-01T00:00:00.000Z''),
                           (''detail'', JObject [(''good'', JBool True), (''event'', JNumber 1)])])
      else if data = goodEvent2
        then Some (map_of [(''time'', JString ''1970-01-01T00:00:00.001Z''),
                           (''detail'', JObject [(''good'', JBool True), (''event'', JNumber 2)])])
      else None)"

definition test_Marshal :: "jvalue \<Rightarrow> bytes option" where
  \<open>test_Marshal v =
     (if v = JObject [(''good'', JBool True), (''event'', JNumber 1)]
        then Some ''{"event":1,"good":true}''
      else if v = JObject [(''good'', JBool True), (''event'', JNumber 2)]
        then Some ''{"event":2,"good":true}''
      else if v = JObject [] then Some ''{}''
      else None)\<close>

definition test_stdlib :: "jvalue stdlib" where
  "test_stdlib =
     \<lparr>json_Unmarshal = test_Unmarshal,
      as_string = (\<lambda>v. case v of JString s \<Rightarrow> Some s | _ \<Rightarrow> None),
      time_Parse_RFC3339 =
        (\<lambda>s. if s = ''1970-01-01T00:00:00.000Z'' then Some 0
             else if s = ''1970-01-01T00:00:00.001Z'' then Some 1000000
             else None),
      json_Marshal = test_Marshal,
      ml_Write_error = (\<lambda>l data. False)\<rparr>"

definition test_batch :: "Record list" where
  "test_batch =
     [\<lparr>Data = unparseableEvent, SequenceNumber = None\<rparr>,
      \<lparr>Data = eventWithoutTime, SequenceNumber = None\<rparr>,
      \<lparr>Data = eventWithoutDetail, SequenceNumber = None\<rparr>,
      \<lparr>Data = goodEvent1, SequenceNumber = None\<rparr>,
      \<lparr>Data = goodEvent2, SequenceNumber = None\<rparr>]"

text \<open>The processor of a new route of capacity 100, as the test builds it.\<close>

definition test_processor :: dumpRecordProcessor where
  "test_processor =
     \<lparr>ml = [],
      t2o = \<lparr>capacity = 100, lastOffset = - 1, offset2Timestamp = [], timestamp2Offsets = []\<rparr>\<rparr>"

section \<open>Properties of the timestamp index\<close>

subsection \<open>The collation order and the tree operations\<close>

lemma cmp_neg: "timestamp2OffsetsKeyCmp a b < 0 \<longleftrightarrow> key_lt a b"
  by (auto simp: timestamp2OffsetsKeyCmp_def compare_def key_lt_def Let_def)

lemma cmp_zero: "timestamp2OffsetsKeyCmp a b = 0 \<longleftrightarrow> a = b"
  by (cases a, cases b) (auto simp: timestamp2OffsetsKeyCmp_def compare_def Let_def)

lemma key_lt_irrefl: "\<not> key_lt a a"
  by (simp add: key_lt_def)

lemma key_lt_trans: "key_lt a b \<Longrightarrow> key_lt b c \<Longrightarrow> key_lt a c"
  by (auto simp: key_lt_def)

lemma key_lt_total: "key_lt a b \<or> a = b \<or> key_lt b a"
  by (cases a, cases b) (auto simp: key_lt_def)

lemma key_lt_asym: "key_lt a b \<Longrightarrow> \<not> key_lt b a"
  by (auto simp: key_lt_def)

lemma tree_Set_set:
  "set (tree_Set timestamp2OffsetsKeyCmp k t) = insert k (set t)"
  by (induction t) (auto simp: cmp_zero)

lemma tree_Set_sorted:
  "sorted_wrt key_lt t \<Longrightarrow> sorted_wrt key_lt (tree_Set timestamp2OffsetsKeyCmp k t)"
proof (induction t)
  case Nil
  then show ?case by simp
next
  case (Cons x xs)
  show ?case
  proof (cases "key_lt k x")
    case True
    then have "\<forall>y\<in>set xs. key_lt k y"
      using Cons.prems by (auto intro: key_lt_trans)
    with True Cons.prems show ?thesis by (simp add: cmp_neg)
  next
    case False
    show ?thesis
    proof (cases "k = x")
      case True
      with False Cons.prems show ?thesis by (simp add: cmp_neg cmp_zero)
    next
      case ne: False
      with False have "key_lt x k" using key_lt_total by blast
      with False ne Cons show ?thesis
        by (auto simp: cmp_neg cmp_zero tree_Set_set)
    qed
  qed
qed

lemma tree_Delete_ok: "snd (tree_Delete timestamp2OffsetsKeyCmp k t) = (k \<in> set t)"
  by (induction t) (auto simp: cmp_zero split: prod.splits)

lemma tree_Delete_absent:
  "k \<notin> set t \<Longrightarrow> tree_Delete timestamp2OffsetsKeyCmp k t = (t, False)"
  by (induction t) (auto simp: cmp_zero)

lemma tree_Delete_present:
  "sorted_wrt key_lt t \<Longrightarrow> k \<in> set t \<Longrightarrow>
   \<exists>t'. tree_Delete timestamp2OffsetsKeyCmp k t = (t', True) \<and> set t' = set t - {k} \<and>
        sorted_wrt key_lt t'"
proof (induction t)
  case Nil
  then show ?case by simp
next
  case (Cons x xs)
  show ?case
  proof (cases "k = x")
    case True
    moreover have "x \<notin> set xs" using Cons.prems(1) by (auto simp: key_lt_irrefl)
    ultimately show ?thesis using Cons.prems by (auto simp: cmp_zero)
  next
    case False
    with Cons.prems have kin: "k \<in> set xs" by auto
    from Cons.IH kin Cons.prems(1) obtain t' where
      t': "tree_Delete timestamp2OffsetsKeyCmp k xs = (t', True)" "set t' = set xs - {k}"
          "sorted_wrt key_lt t'"
      by auto
    with False Cons.prems(1) show ?thesis
      by (auto simp: cmp_zero)
  qed
qed

lemma seek_from_eq:
  "seek_from timestamp2OffsetsKeyCmp k acc t =
     \<lparr>before = rev (takeWhile (\<lambda>x. key_lt x k) t) @ acc,
      from_here = dropWhile (\<lambda>x. key_lt x k) t,
      hit = (case dropWhile (\<lambda>x. key_lt x k) t of [] \<Rightarrow> False | x # _ \<Rightarrow> x = k)\<rparr>"
proof (induction t arbitrary: acc)
  case Nil
  then show ?case by simp
next
  case (Cons x xs)
  consider "key_lt k x" | "k = x" | "key_lt x k" using key_lt_total by blast
  then show ?case
  proof cases
    case 1
    then show ?thesis using key_lt_asym[OF 1] by (auto simp: cmp_neg cmp_zero key_lt_irrefl)
  next
    case 2
    then show ?thesis by (simp add: cmp_neg cmp_zero key_lt_irrefl)
  next
    case 3
    then have "\<not> key_lt k x" "k \<noteq> x" using key_lt_asym key_lt_irrefl by blast+
    with 3 show ?thesis by (simp add: cmp_neg cmp_zero Cons.IH)
  qed
qed

subsection \<open>The invariant and the effect of a successful Add\<close>

lemma inj_key_of: "inj key_of"
  by (auto simp: inj_on_def key_of_def prod_eq_iff)

lemma update_fresh: "k \<notin> fst ` set al \<Longrightarrow> AList.update k v al = al @ [(k, v)]"
  by (induction al) auto

lemma delete_head: "k \<notin> fst ` set al \<Longrightarrow> AList.delete k ((k, v) # al) = al"
  by simp

lemma NewTimestamp2Offset_inv: "NewTimestamp2Offset c = Inr m \<Longrightarrow> t2o_inv m"
  by (auto simp: NewTimestamp2Offset_def t2o_inv_def TreeNew_def split: if_splits)

text \<open>Insertion below capacity.\<close>

lemma Add_below_capacity:
  assumes inv: "t2o_inv m" and off: "0 \<le> off"
    and next_off: "offset2Timestamp m = [] \<or> lastOffset m = off - 1"
    and room: "int (length (offset2Timestamp m)) \<noteq> capacity m"
  shows "Add m off ts =
           (m\<lparr>lastOffset := off,
              offset2Timestamp := offset2Timestamp m @ [(off, ts)],
              timestamp2Offsets :=
                tree_Set timestamp2OffsetsKeyCmp (key_of (off, ts)) (timestamp2Offsets m)\<rparr>, None)"
proof -
  let ?al = "offset2Timestamp m"
  have keys: "map fst ?al = [lastOffset m + 1 - int (length ?al) .. lastOffset m]"
    using inv by (simp add: t2o_inv_def)
  have fresh: "off \<notin> fst ` set ?al"
  proof (cases "?al = []")
    case True
    then show ?thesis by simp
  next
    case False
    with next_off have "lastOffset m = off - 1" by simp
    moreover have "fst ` set ?al = {lastOffset m + 1 - int (length ?al) .. lastOffset m}"
      using keys by (metis set_map set_upto)
    ultimately show ?thesis by simp
  qed
  show ?thesis
    using off next_off room fresh
    by (auto simp: Add_def Add_evict_insert_def Let_def update_fresh key_of_def)
qed

lemma Add_at_capacity:
  assumes inv: "t2o_inv m" and off: "0 \<le> off"
    and next_off: "lastOffset m = off - 1"
    and full: "int (length (offset2Timestamp m)) = capacity m"
  shows "\<exists>old rest t'.
           offset2Timestamp m = (off - capacity m, old) # rest \<and>
           tree_Delete timestamp2OffsetsKeyCmp (key_of (off - capacity m, old)) (timestamp2Offsets m) = (t', True) \<and>
           set t' = set (timestamp2Offsets m) - {key_of (off - capacity m, old)} \<and>
           sorted_wrt key_lt t' \<and>
           Add m off ts =
             (m\<lparr>lastOffset := off,
                offset2Timestamp := rest @ [(off, ts)],
                timestamp2Offsets := tree_Set timestamp2OffsetsKeyCmp (key_of (off, ts)) t'\<rparr>, None)"
proof -
  let ?al = "offset2Timestamp m"
  let ?c = "capacity m"
  have cpos: "0 < ?c" and keys: "map fst ?al = [lastOffset m + 1 - int (length ?al) .. lastOffset m]"
    and srt: "sorted_wrt key_lt (timestamp2Offsets m)"
    and tset: "set (timestamp2Offsets m) = key_of ` set ?al"
    using inv by (simp_all add: t2o_inv_def)
  from cpos full have ne: "?al \<noteq> []" by auto
  then obtain p rest where al: "?al = p # rest" by (cases ?al) auto
  obtain o0 old where p: "p = (o0, old)" by (cases p)
  have keys': "map fst ?al = [off - ?c .. off - 1]"
    using keys full next_off by simp
  have "off - ?c \<le> off - 1" using cpos by simp
  then have "[off - ?c .. off - 1] = (off - ?c) # [off - ?c + 1 .. off - 1]"
    by (rule upto_rec1)
  with keys' al p have o0: "o0 = off - ?c" and rest_keys: "map fst rest = [off - ?c + 1 .. off - 1]"
    by simp_all
  have "fst ` set rest = {off - ?c + 1 .. off - 1}"
    using rest_keys by (metis set_map set_upto)
  then have old_fresh: "off - ?c \<notin> fst ` set rest" and new_fresh: "off \<notin> fst ` set rest"
    by simp_all
  have "key_of (off - ?c, old) \<in> set (timestamp2Offsets m)"
    using tset al p o0 by simp
  from tree_Delete_present[OF srt this] obtain t' where
    t': "tree_Delete timestamp2OffsetsKeyCmp (key_of (off - ?c, old)) (timestamp2Offsets m) = (t', True)"
        "set t' = set (timestamp2Offsets m) - {key_of (off - ?c, old)}" "sorted_wrt key_lt t'"
    by blast
  have lookup: "map_of ?al (off - ?c) = Some old"
    using al p o0 by simp
  have del: "AList.delete (off - ?c) ?al = rest"
    using al p o0 old_fresh by simp
  have t'': "tree_Delete timestamp2OffsetsKeyCmp \<lparr>timestamp = old, offset = off - ?c\<rparr> (timestamp2Offsets m) = (t', True)"
    using t'(1) by (simp add: key_of_def)
  have "Add m off ts =
             (m\<lparr>lastOffset := off,
                offset2Timestamp := rest @ [(off, ts)],
                timestamp2Offsets := tree_Set timestamp2OffsetsKeyCmp (key_of (off, ts)) t'\<rparr>, None)"
    using off ne next_off full lookup del t'' new_fresh cpos
    by (simp add: Add_def Add_evict_insert_def Let_def update_fresh key_of_def)
  with al p o0 t' show ?thesis by blast
qed

lemma Add_below_capacity_inv:
  assumes inv: "t2o_inv m" and off: "0 \<le> off"
    and next_off: "offset2Timestamp m = [] \<or> lastOffset m = off - 1"
    and room: "int (length (offset2Timestamp m)) \<noteq> capacity m"
  shows "t2o_inv (fst (Add m off ts))"
proof -
  let ?al = "offset2Timestamp m"
  have keys: "map fst ?al = [lastOffset m + 1 - int (length ?al) .. lastOffset m]"
    and len: "int (length ?al) \<le> capacity m" and cpos: "0 < capacity m"
    and nonneg: "?al \<noteq> [] \<longrightarrow> int (length ?al) \<le> lastOffset m + 1"
    and srt: "sorted_wrt key_lt (timestamp2Offsets m)"
    and tset: "set (timestamp2Offsets m) = key_of ` set ?al"
    using inv by (simp_all add: t2o_inv_def)
  have keys2: "map fst (?al @ [(off, ts)]) = [off - int (length ?al) .. off]"
  proof (cases "?al = []")
    case True
    then show ?thesis by simp
  next
    case False
    with next_off have lo: "lastOffset m = off - 1" by simp
    have "off - int (length ?al) \<le> off" by simp
    then have "[off - int (length ?al) .. off] = [off - int (length ?al) .. off - 1] @ [off]"
      by (rule upto_rec2)
    with keys lo show ?thesis by simp
  qed
  have nn: "int (length ?al) \<le> off"
    using nonneg next_off off by (cases "?al = []") auto
  show ?thesis
    unfolding Add_below_capacity[OF assms]
    using cpos len room keys2 nn srt tset
    by (simp add: t2o_inv_def tree_Set_sorted tree_Set_set)
qed

lemma Add_at_capacity_inv:
  assumes inv: "t2o_inv m" and off: "0 \<le> off"
    and next_off: "lastOffset m = off - 1"
    and full: "int (length (offset2Timestamp m)) = capacity m"
  shows "t2o_inv (fst (Add m off ts))"
proof -
  let ?al = "offset2Timestamp m"
  let ?c = "capacity m"
  from Add_at_capacity[OF assms, of ts] obtain old rest t' where
    al: "?al = (off - ?c, old) # rest"
    and ts: "set t' = set (timestamp2Offsets m) - {key_of (off - ?c, old)}"
    and srt': "sorted_wrt key_lt t'"
    and add: "Add m off ts =
             (m\<lparr>lastOffset := off,
                offset2Timestamp := rest @ [(off, ts)],
                timestamp2Offsets := tree_Set timestamp2OffsetsKeyCmp (key_of (off, ts)) t'\<rparr>, None)"
    by blast
  have keys: "map fst ?al = [lastOffset m + 1 - int (length ?al) .. lastOffset m]"
    and cpos: "0 < ?c"
    and nonneg: "?al \<noteq> [] \<longrightarrow> int (length ?al) \<le> lastOffset m + 1"
    and tset: "set (timestamp2Offsets m) = key_of ` set ?al"
    using inv by (simp_all add: t2o_inv_def)
  define lo where "lo = off - ?c"
  have keys': "map fst ?al = [lo .. off - 1]"
    using keys full next_off by (simp add: lo_def)
  have "[lo .. off - 1] = lo # [lo + 1 .. off - 1]"
    using cpos by (intro upto_rec1) (simp add: lo_def)
  with keys' al have rest_keys: "map fst rest = [lo + 1 .. off - 1]" by simp
  have len_rest: "int (length rest) = ?c - 1" using al full by simp
  have "[lo + 1 .. off] = [lo + 1 .. off - 1] @ [off]"
    using cpos by (intro upto_rec2) (simp add: lo_def)
  with rest_keys have keys2: "map fst (rest @ [(off, ts)]) = [lo + 1 .. off]"
    by simp
  have lo2: "off + 1 - int (length (rest @ [(off, ts)])) = lo + 1"
    using len_rest by (simp add: lo_def)
  have "fst ` set rest = {lo + 1 .. off - 1}"
    using rest_keys by (metis set_map set_upto)
  then have "lo \<notin> fst ` set rest" by simp
  then have "(lo, old) \<notin> set rest" by force
  then have "set rest = set ?al - {(lo, old)}" using al by (auto simp: lo_def)
  then have "key_of ` set rest = key_of ` set ?al - {key_of (lo, old)}"
    using inj_key_of by (simp add: image_set_diff)
  with ts tset have ts': "set t' = key_of ` set rest" by (simp add: lo_def)
  have nn: "?c \<le> off" using nonneg al full next_off by auto
  let ?m' = "m\<lparr>lastOffset := off, offset2Timestamp := rest @ [(off, ts)],
                timestamp2Offsets := tree_Set timestamp2OffsetsKeyCmp (key_of (off, ts)) t'\<rparr>"
  have k: "map fst (offset2Timestamp ?m') =
       [lastOffset ?m' + 1 - int (length (offset2Timestamp ?m')) .. lastOffset ?m']"
    using keys2 lo2 by simp
  have "t2o_inv ?m'"
    unfolding t2o_inv_def
  proof (intro conjI)
    show "0 < capacity ?m'" using cpos by simp
    show "int (length (offset2Timestamp ?m')) \<le> capacity ?m'" using len_rest by simp
    show "map fst (offset2Timestamp ?m') =
       [lastOffset ?m' + 1 - int (length (offset2Timestamp ?m')) .. lastOffset ?m']" by (rule k)
    show "offset2Timestamp ?m' \<noteq> [] \<longrightarrow> int (length (offset2Timestamp ?m')) \<le> lastOffset ?m' + 1"
      using len_rest nn by simp
    show "sorted_wrt key_lt (timestamp2Offsets ?m')" using srt' by (simp add: tree_Set_sorted)
    show "set (timestamp2Offsets ?m') = key_of ` set (offset2Timestamp ?m')"
      using ts' by (simp add: tree_Set_set)
  qed
  then show ?thesis by (simp add: add)
qed

lemma Add_fails_unchanged:
  assumes "0 < capacity m" and "Add m off ts = (m', Some e)"
  shows "m' = m"
  using assms
  by (auto simp: Add_def Add_evict_insert_def Let_def split: if_splits option.splits prod.splits bool.splits)

lemma Add_inv: "t2o_inv m \<Longrightarrow> t2o_inv (fst (Add m off ts))"
proof -
  assume inv: "t2o_inv m"
  then have cpos: "0 < capacity m" by (simp add: t2o_inv_def)
  consider (neg) "off < 0"
    | (gap) "0 \<le> off" "offset2Timestamp m \<noteq> []" "lastOffset m \<noteq> off - 1"
    | (below) "0 \<le> off" "offset2Timestamp m = [] \<or> lastOffset m = off - 1"
              "int (length (offset2Timestamp m)) \<noteq> capacity m"
    | (full) "0 \<le> off" "lastOffset m = off - 1" "int (length (offset2Timestamp m)) = capacity m"
    using cpos by fastforce
  then show ?thesis
  proof cases
    case neg
    then show ?thesis using inv by (simp add: Add_def)
  next
    case gap
    then show ?thesis using inv by (simp add: Add_def Let_def)
  next
    case below
    then show ?thesis using inv by (intro Add_below_capacity_inv)
  next
    case full
    then show ?thesis using inv by (intro Add_at_capacity_inv)
  qed
qed

lemma Add_capacity: "capacity (fst (Add m off ts)) = capacity m"
  by (simp add: Add_def Add_evict_insert_def Let_def split: option.splits prod.splits bool.splits)

subsection \<open>The search of NearestOffset\<close>

lemma NearestOffset_eq:
  "NearestOffset m ts =
     (case dropWhile (\<lambda>x. key_lt x \<lparr>timestamp = ts, offset = 0\<rparr>) (timestamp2Offsets m) of
        x # _ \<Rightarrow> (offset x, True)
      | [] \<Rightarrow> (case rev (timestamp2Offsets m) of
                 x # _ \<Rightarrow> (offset x, True)
               | [] \<Rightarrow> (- 1, False)))"
proof -
  let ?P = "\<lambda>x. key_lt x \<lparr>timestamp = ts, offset = 0\<rparr>"
  let ?t = "timestamp2Offsets m"
  show ?thesis
  proof (cases "dropWhile ?P ?t")
    case Nil
    then have "takeWhile ?P ?t = ?t"
      by (metis append_Nil2 takeWhile_dropWhile_id)
    with Nil show ?thesis
      by (simp add: NearestOffset_def tree_Seek_def seek_from_eq enum_Next_def enum_Prev_def
               del: dropWhile_eq_Nil_conv takeWhile_eq_all_conv split: list.splits)
  next
    case (Cons x xs)
    then show ?thesis
      by (simp add: NearestOffset_def tree_Seek_def seek_from_eq enum_Next_def)
  qed
qed

lemma inv_offsets_nonneg:
  assumes "t2o_inv m" and "e \<in> set (offset2Timestamp m)"
  shows "0 \<le> fst e"
proof -
  let ?al = "offset2Timestamp m"
  from assms have ne: "?al \<noteq> []" by auto
  have "fst e \<in> set (map fst ?al)" using assms(2) by simp
  also have "map fst ?al = [lastOffset m + 1 - int (length ?al) .. lastOffset m]"
    using assms(1) by (simp add: t2o_inv_def)
  finally have "lastOffset m + 1 - int (length ?al) \<le> fst e" by simp
  moreover have "int (length ?al) \<le> lastOffset m + 1"
    using assms(1) ne by (simp add: t2o_inv_def)
  ultimately show ?thesis by simp
qed

lemma below_query_iff:
  "0 \<le> fst e \<Longrightarrow> key_lt (key_of e) \<lparr>timestamp = ts, offset = 0\<rparr> \<longleftrightarrow> snd e < ts"
  by (auto simp: key_lt_def key_of_def)

lemma key_of_eq_iff: "key_of e = key_of e' \<longleftrightarrow> e = e'"
  by (auto simp: key_of_def prod_eq_iff)

lemma key_of_order:
  "key_lt (key_of e) (key_of e') \<longleftrightarrow> snd e < snd e' \<or> (snd e = snd e' \<and> fst e < fst e')"
  by (simp add: key_lt_def key_of_def)

lemma NearestOffset_forward:
  assumes inv: "t2o_inv m" and ex: "\<exists>e\<in>set (offset2Timestamp m). ts \<le> snd e"
  shows "\<exists>e. earliest_at_or_after ts (set (offset2Timestamp m)) e \<and>
             NearestOffset m ts = (fst e, True)"
proof -
  let ?P = "\<lambda>x. key_lt x \<lparr>timestamp = ts, offset = 0\<rparr>"
  let ?t = "timestamp2Offsets m"
  let ?E = "set (offset2Timestamp m)"
  have srt: "sorted_wrt key_lt ?t" and tset: "set ?t = key_of ` ?E"
    using inv by (simp_all add: t2o_inv_def)
  from ex obtain e0 where e0: "e0 \<in> ?E" "ts \<le> snd e0" by blast
  have "0 \<le> fst e0" using inv e0(1) by (rule inv_offsets_nonneg)
  then have "\<not> ?P (key_of e0)" using e0(2) by (simp add: below_query_iff)
  moreover have "key_of e0 \<in> set ?t" using tset e0(1) by simp
  ultimately have "dropWhile ?P ?t \<noteq> []" by auto
  then obtain x xs where dw: "dropWhile ?P ?t = x # xs" by (cases "dropWhile ?P ?t") auto
  have split: "?t = takeWhile ?P ?t @ x # xs"
    using dw by (metis takeWhile_dropWhile_id)
  have "x \<in> set ?t" using split by (metis in_set_conv_decomp)
  then obtain e where e: "e \<in> ?E" "x = key_of e" using tset by auto
  have nP: "\<not> ?P x" using dw by (metis hd_dropWhile list.sel(1) list.distinct(1))
  have "0 \<le> fst e" using inv e(1) by (rule inv_offsets_nonneg)
  then have ge: "ts \<le> snd e" using nP e(2) by (simp add: below_query_iff)
  have after: "\<forall>y\<in>set xs. key_lt x y"
    using srt split by (metis sorted_wrt_append sorted_wrt.simps(2))
  have "\<forall>e'\<in>?E. ts \<le> snd e' \<longrightarrow> snd e < snd e' \<or> (snd e = snd e' \<and> fst e \<le> fst e')"
  proof (intro ballI impI)
    fix e' assume e': "e' \<in> ?E" "ts \<le> snd e'"
    have "0 \<le> fst e'" using inv e'(1) by (rule inv_offsets_nonneg)
    then have "\<not> ?P (key_of e')" using e'(2) by (simp add: below_query_iff)
    then have "key_of e' \<notin> set (takeWhile ?P ?t)" by (meson set_takeWhileD)
    moreover have "key_of e' \<in> set (takeWhile ?P ?t) \<union> set (x # xs)"
      using tset e'(1) split by (metis image_eqI set_append)
    ultimately have "key_of e' \<in> set (x # xs)" by blast
    then have "key_of e' = key_of e \<or> key_lt (key_of e) (key_of e')"
      using after e(2) by auto
    then show "snd e < snd e' \<or> (snd e = snd e' \<and> fst e \<le> fst e')"
      by (auto simp: key_of_order key_of_eq_iff)
  qed
  with e ge have "earliest_at_or_after ts ?E e" by (simp add: earliest_at_or_after_def)
  moreover have "NearestOffset m ts = (fst e, True)"
    using dw e(2) by (simp add: NearestOffset_eq key_of_def)
  ultimately show ?thesis by blast
qed

lemma NearestOffset_backward:
  assumes inv: "t2o_inv m" and ne: "offset2Timestamp m \<noteq> []"
    and all: "\<forall>e\<in>set (offset2Timestamp m). snd e < ts"
  shows "\<exists>e. latest_entry (set (offset2Timestamp m)) e \<and> NearestOffset m ts = (fst e, True)"
proof -
  let ?P = "\<lambda>x. key_lt x \<lparr>timestamp = ts, offset = 0\<rparr>"
  let ?t = "timestamp2Offsets m"
  let ?E = "set (offset2Timestamp m)"
  have srt: "sorted_wrt key_lt ?t" and tset: "set ?t = key_of ` ?E"
    using inv by (simp_all add: t2o_inv_def)
  have "\<forall>x\<in>set ?t. ?P x"
  proof
    fix x assume "x \<in> set ?t"
    then obtain e where e: "e \<in> ?E" "x = key_of e" using tset by auto
    have "0 \<le> fst e" using inv e(1) by (rule inv_offsets_nonneg)
    then show "?P x" using all e by (simp add: below_query_iff)
  qed
  then have dw: "dropWhile ?P ?t = []" by simp
  have tne: "?t \<noteq> []" using tset ne by auto
  then obtain ys x where split: "?t = ys @ [x]" by (metis rev_exhaust)
  then have "x \<in> set ?t" by simp
  then obtain e where e: "e \<in> ?E" "x = key_of e" using tset by auto
  have before: "\<forall>y\<in>set ys. key_lt y x"
    using srt split by (simp add: sorted_wrt_append)
  have "\<forall>e'\<in>?E. snd e' < snd e \<or> (snd e' = snd e \<and> fst e' \<le> fst e)"
  proof
    fix e' assume "e' \<in> ?E"
    then have "key_of e' \<in> set ?t" using tset by auto
    then have "key_of e' = key_of e \<or> key_lt (key_of e') (key_of e)"
      using split before e(2) by auto
    then show "snd e' < snd e \<or> (snd e' = snd e \<and> fst e' \<le> fst e)"
      by (auto simp: key_of_order key_of_eq_iff)
  qed
  with e have "latest_entry ?E e" by (simp add: latest_entry_def)
  moreover have "NearestOffset m ts = (fst e, True)"
    using dw split e(2) by (simp add: NearestOffset_eq key_of_def)
  ultimately show ?thesis by blast
qed

lemma NearestOffset_empty:
  assumes inv: "t2o_inv m" and "offset2Timestamp m = []"
  shows "NearestOffset m ts = (- 1, False)"
proof -
  have "timestamp2Offsets m = []" using assms by (simp add: t2o_inv_def)
  then show ?thesis by (simp add: NearestOffset_eq)
qed

lemma Add_calls_inv: "t2o_inv m \<Longrightarrow> t2o_inv (Add_calls m calls)"
  unfolding Add_calls_def
  by (induction calls arbitrary: m) (auto simp: Add_inv)

lemma earliest_unique:
  "earliest_at_or_after ts E e \<Longrightarrow> earliest_at_or_after ts E e' \<Longrightarrow> e = e'"
  unfolding earliest_at_or_after_def by (metis order.asym prod_eq_iff order_antisym)

lemma latest_unique: "latest_entry E e \<Longrightarrow> latest_entry E e' \<Longrightarrow> e = e'"
  unfolding latest_entry_def by (metis order.asym prod_eq_iff order_antisym)

subsection \<open>Sequences of successful Add calls\<close>

lemma Add_seq_snoc:
  "Add_seq m (ops @ [(off, ts)]) =
     (case Add_seq m ops of (m', None) \<Rightarrow> Add m' off ts | (m', Some e) \<Rightarrow> (m', Some e))"
  by (induction m ops rule: Add_seq.induct) (auto split: prod.splits option.splits)

lemma Add_success_cond:
  "Add m off ts = (m', None) \<Longrightarrow>
     0 \<le> off \<and> (offset2Timestamp m = [] \<or> lastOffset m = off - 1)"
  by (auto simp: Add_def Let_def split: if_splits)

lemma Add_seq_retains:
  assumes "t2o_inv m0" and "offset2Timestamp m0 = []" and "Add_seq m0 ops = (m, None)"
  shows "t2o_inv m \<and> capacity m = capacity m0 \<and>
         offset2Timestamp m = drop (length ops - nat (capacity m0)) ops \<and>
         map fst ops = [lastOffset m + 1 - int (length ops) .. lastOffset m] \<and>
         (ops \<noteq> [] \<longrightarrow> int (length ops) \<le> lastOffset m + 1)"
  using assms(3)
proof (induction ops arbitrary: m rule: rev_induct)
  case Nil
  then show ?case using assms(1,2) by simp
next
  case (snoc x ops)
  obtain off ts where x: "x = (off, ts)" by (cases x)
  obtain m1 r where s1: "Add_seq m0 ops = (m1, r)" by (cases "Add_seq m0 ops")
  with snoc.prems x have r: "r = None" and add: "Add m1 off ts = (m, None)"
    by (auto simp: Add_seq_snoc split: option.splits)
  let ?C = "capacity m0"
  let ?n = "length ops"
  let ?al = "offset2Timestamp m1"
  from snoc.IH s1 r have inv1: "t2o_inv m1" and cap1: "capacity m1 = ?C"
    and al1: "?al = drop (?n - nat ?C) ops"
    and keys1: "map fst ops = [lastOffset m1 + 1 - int ?n .. lastOffset m1]"
    and nn1: "ops \<noteq> [] \<longrightarrow> int ?n \<le> lastOffset m1 + 1"
    by simp_all
  have cpos: "0 < ?C" using assms(1) by (simp add: t2o_inv_def)
  from Add_success_cond[OF add] have off: "0 \<le> off"
    and nxt: "?al = [] \<or> lastOffset m1 = off - 1" by simp_all
  have len1: "length ?al = min ?n (nat ?C)" using al1 by (simp add: min_def)
  have "length ?al = 0 \<longleftrightarrow> ?n = 0" using len1 cpos by (auto simp: min_def)
  then have empty_iff: "?al = [] \<longleftrightarrow> ops = []" by simp
  have inv: "t2o_inv m" using Add_inv[OF inv1, of off ts] add by simp
  have cap: "capacity m = ?C" using Add_capacity[of m1 off ts] add cap1 by simp
  have last: "lastOffset m = off"
    using add by (auto simp: Add_def Add_evict_insert_def Let_def
                       split: if_splits option.splits prod.splits bool.splits)
  have keys: "map fst (ops @ [x]) = [lastOffset m + 1 - int (length (ops @ [x])) .. lastOffset m]"
  proof (cases "ops = []")
    case True
    then show ?thesis using x last by simp
  next
    case False
    with nxt empty_iff have lo: "lastOffset m1 = off - 1" by simp
    have "[off - int ?n .. off] = [off - int ?n .. off - 1] @ [off]"
      by (intro upto_rec2) simp
    moreover have "map fst ops = [off - int ?n .. off - 1]" using keys1 lo by simp
    moreover have "lastOffset m + 1 - int (length (ops @ [x])) = off - int ?n"
      using last by simp
    ultimately show ?thesis using x last by simp
  qed
  have nn: "int (length (ops @ [x])) \<le> lastOffset m + 1"
  proof (cases "ops = []")
    case True
    then show ?thesis using last off by simp
  next
    case False
    with nxt empty_iff have "lastOffset m1 = off - 1" by simp
    with nn1 False last show ?thesis by simp
  qed
  have al: "offset2Timestamp m = drop (length (ops @ [x]) - nat ?C) (ops @ [x])"
  proof (cases "int (length ?al) = capacity m1")
    case False
    then have "?n < nat ?C" using len1 cap1 cpos by (auto simp: min_def split: if_splits)
    then have "length (ops @ [x]) - nat ?C = 0" "?n - nat ?C = 0" by simp_all
    moreover have "offset2Timestamp m = ?al @ [(off, ts)]"
      using Add_below_capacity[OF inv1 off nxt False, of ts] add by simp
    ultimately show ?thesis using al1 x by simp
  next
    case True
    then have ge: "nat ?C \<le> ?n" using len1 cap1 cpos by (auto simp: min_def split: if_splits)
    then have ne: "ops \<noteq> []" using cpos by auto
    with nxt empty_iff have lo: "lastOffset m1 = off - 1" by simp
    from Add_at_capacity[OF inv1 off lo True, of ts] add obtain old rest where
      al1': "?al = (off - capacity m1, old) # rest" and al': "offset2Timestamp m = rest @ [(off, ts)]"
      by auto
    have "length (ops @ [x]) - nat ?C = Suc (?n - nat ?C)" using ge by simp
    moreover have "Suc (?n - nat ?C) \<le> ?n" using ge cpos by simp
    ultimately have "drop (length (ops @ [x]) - nat ?C) (ops @ [x]) = drop (Suc (?n - nat ?C)) ops @ [x]"
      by simp
    also have "drop (Suc (?n - nat ?C)) ops = tl (drop (?n - nat ?C) ops)"
      by (simp add: drop_Suc tl_drop)
    also have "\<dots> = rest" using al1 al1' by (metis list.sel(3))
    finally show ?thesis using al' x by simp
  qed
  from inv cap al keys nn show ?case by simp
qed

lemma NearestOffset_in_entries:
  assumes inv: "t2o_inv m" and ne: "offset2Timestamp m \<noteq> []"
  shows "\<exists>e\<in>set (offset2Timestamp m). NearestOffset m ts = (fst e, True)"
proof (cases "\<exists>e\<in>set (offset2Timestamp m). ts \<le> snd e")
  case True
  from NearestOffset_forward[OF inv True] show ?thesis
    unfolding earliest_at_or_after_def by blast
next
  case False
  then have "\<forall>e\<in>set (offset2Timestamp m). snd e < ts" by auto
  from NearestOffset_backward[OF inv ne this] show ?thesis
    unfolding latest_entry_def by blast
qed

subsection \<open>What Add rejects\<close>

text \<open>
  C3. \<^verbatim>\<open>Add(offset, timestamp)\<close> fails with an out-of-order error when the offset is
  negative, and when the index is not empty and the offset is not the last accepted
  offset plus one (so every gap and every repeat is rejected); on an empty index the
  call is the first one and any non-negative offset becomes the baseline. When the index
  holds \<open>capacity\<close> entries and the offset is in order, \<^verbatim>\<open>Add\<close> fails with a corrupt-state
  error if the map has no entry for \<open>offset - capacity\<close>, or if it has one but the tree
  does not hold its (timestamp, offset) key. This holds in every state of the record,
  consistent or not.
\<close>

theorem Add_rejects:
  "(off < 0 \<longrightarrow>
      Add m off ts = (m, Some NegativeOffset) \<and> OutOfOrder NegativeOffset) \<and>
   (0 \<le> off \<and> offset2Timestamp m \<noteq> [] \<and> off \<noteq> lastOffset m + 1 \<longrightarrow>
      Add m off ts = (m, Some (NotContiguous off (lastOffset m))) \<and>
      OutOfOrder (NotContiguous off (lastOffset m))) \<and>
   (0 \<le> off \<and> offset2Timestamp m = [] \<and> 0 < capacity m \<longrightarrow>
      snd (Add m off ts) = None \<and> lastOffset (fst (Add m off ts)) = off \<and>
      offset2Timestamp (fst (Add m off ts)) = [(off, ts)]) \<and>
   (0 \<le> off \<and> (offset2Timestamp m = [] \<or> off = lastOffset m + 1) \<and>
    int (length (offset2Timestamp m)) = capacity m \<and>
    map_of (offset2Timestamp m) (off - capacity m) = None \<longrightarrow>
      snd (Add m off ts) = Some (OldOffsetNotFound (off - capacity m)) \<and>
      CorruptState (OldOffsetNotFound (off - capacity m))) \<and>
   (0 \<le> off \<and> (offset2Timestamp m = [] \<or> off = lastOffset m + 1) \<and>
    int (length (offset2Timestamp m)) = capacity m \<and>
    map_of (offset2Timestamp m) (off - capacity m) = Some old \<and>
    \<lparr>timestamp = old, offset = off - capacity m\<rparr> \<notin> set (timestamp2Offsets m) \<longrightarrow>
      snd (Add m off ts) = Some (OldTimestampNotFound old (off - capacity m)) \<and>
      CorruptState (OldTimestampNotFound old (off - capacity m)))"
proof (intro conjI impI)
  assume "off < 0"
  then show "Add m off ts = (m, Some NegativeOffset)" by (simp add: Add_def)
next
  assume "0 \<le> off \<and> offset2Timestamp m \<noteq> [] \<and> off \<noteq> lastOffset m + 1"
  then have "0 \<le> off" "offset2Timestamp m \<noteq> []" "lastOffset m \<noteq> off - 1" by auto
  then show "Add m off ts = (m, Some (NotContiguous off (lastOffset m)))"
    by (simp add: Add_def)
next
  assume a: "0 \<le> off \<and> offset2Timestamp m = [] \<and> 0 < capacity m"
  then have e: "Add m off ts =
      (m\<lparr>lastOffset := off, offset2Timestamp := [(off, ts)],
         timestamp2Offsets :=
           tree_Set timestamp2OffsetsKeyCmp \<lparr>timestamp = ts, offset = off\<rparr> (timestamp2Offsets m)\<rparr>,
       None)"
    by (simp add: Add_def Add_evict_insert_def)
  show "snd (Add m off ts) = None" by (simp add: e)
  show "lastOffset (fst (Add m off ts)) = off" by (simp add: e)
  show "offset2Timestamp (fst (Add m off ts)) = [(off, ts)]" by (simp add: e)
next
  assume "0 \<le> off \<and> (offset2Timestamp m = [] \<or> off = lastOffset m + 1) \<and>
    int (length (offset2Timestamp m)) = capacity m \<and>
    map_of (offset2Timestamp m) (off - capacity m) = None"
  then show "snd (Add m off ts) = Some (OldOffsetNotFound (off - capacity m))"
    by (auto simp: Add_def Add_evict_insert_def Let_def)
next
  assume a: "0 \<le> off \<and> (offset2Timestamp m = [] \<or> off = lastOffset m + 1) \<and>
    int (length (offset2Timestamp m)) = capacity m \<and>
    map_of (offset2Timestamp m) (off - capacity m) = Some old \<and>
    \<lparr>timestamp = old, offset = off - capacity m\<rparr> \<notin> set (timestamp2Offsets m)"
  then have "tree_Delete timestamp2OffsetsKeyCmp \<lparr>timestamp = old, offset = off - capacity m\<rparr>
               (timestamp2Offsets m) = (timestamp2Offsets m, False)"
    by (simp add: tree_Delete_absent)
  with a show "snd (Add m off ts) = Some (OldTimestampNotFound old (off - capacity m))"
    by (auto simp: Add_def Add_evict_insert_def Let_def)
qed simp_all

theorem Add_rejects_witness:
  "(let m = \<lparr>capacity = 2, lastOffset = 4, offset2Timestamp = [(3, 100), (4, 500)],
              timestamp2Offsets = [\<lparr>timestamp = 100, offset = 3\<rparr>, \<lparr>timestamp = 500, offset = 4\<rparr>]\<rparr>
    in Add m (- 1) 600 = (m, Some NegativeOffset) \<and>
       Add m 4 600 = (m, Some (NotContiguous 4 4)) \<and>
       Add m 7 600 = (m, Some (NotContiguous 7 4))) \<and>
   (let m0 = \<lparr>capacity = 2, lastOffset = - 1, offset2Timestamp = [], timestamp2Offsets = []\<rparr>
    in snd (Add m0 9 600) = None \<and> lastOffset (fst (Add m0 9 600)) = 9) \<and>
   (let m = \<lparr>capacity = 2, lastOffset = 4, offset2Timestamp = [(1, 100), (4, 500)],
              timestamp2Offsets = [\<lparr>timestamp = 100, offset = 1\<rparr>, \<lparr>timestamp = 500, offset = 4\<rparr>]\<rparr>
    in snd (Add m 5 600) = Some (OldOffsetNotFound 3)) \<and>
   (let m = \<lparr>capacity = 2, lastOffset = 4, offset2Timestamp = [(3, 100), (4, 500)],
              timestamp2Offsets = [\<lparr>timestamp = 500, offset = 4\<rparr>]\<rparr>
    in snd (Add m 5 600) = Some (OldTimestampNotFound 100 3))"
proof -
  let ?m = "\<lparr>capacity = 2, lastOffset = 4, offset2Timestamp = [(3, 100), (4, 500)],
              timestamp2Offsets = [\<lparr>timestamp = 100, offset = 3\<rparr>, \<lparr>timestamp = 500, offset = 4\<rparr>]\<rparr>"
  let ?fresh = "\<lparr>capacity = 2, lastOffset = - 1, offset2Timestamp = [], timestamp2Offsets = []\<rparr>"
  let ?gap = "\<lparr>capacity = 2, lastOffset = 4, offset2Timestamp = [(1, 100), (4, 500)],
              timestamp2Offsets = [\<lparr>timestamp = 100, offset = 1\<rparr>, \<lparr>timestamp = 500, offset = 4\<rparr>]\<rparr>"
  let ?torn = "\<lparr>capacity = 2, lastOffset = 4, offset2Timestamp = [(3, 100), (4, 500)],
              timestamp2Offsets = [\<lparr>timestamp = 500, offset = 4\<rparr>]\<rparr>"
  have "Add ?m (- 1) 600 = (?m, Some NegativeOffset)"
    using Add_rejects [of "- 1" ?m 600] by simp
  moreover have "Add ?m 4 600 = (?m, Some (NotContiguous 4 4))"
    using Add_rejects [of 4 ?m 600] by simp
  moreover have "Add ?m 7 600 = (?m, Some (NotContiguous 7 4))"
    using Add_rejects [of 7 ?m 600] by simp
  moreover have "snd (Add ?fresh 9 600) = None \<and> lastOffset (fst (Add ?fresh 9 600)) = 9"
    using Add_rejects [of 9 ?fresh 600] by simp
  moreover have "snd (Add ?gap 5 600) = Some (OldOffsetNotFound 3)"
    using Add_rejects [of 5 ?gap 600] by simp
  moreover have "snd (Add ?torn 5 600) = Some (OldTimestampNotFound 100 3)"
    using Add_rejects [of 5 ?torn 600 100] by simp
  ultimately show ?thesis by (simp only: Let_def) 
qed

subsection \<open>A failing Add changes nothing\<close>

text \<open>
  C9. \<^verbatim>\<open>Add\<close> is atomic on failure: when a call returns an error (negative offset,
  offset out of order, or eviction entry missing from the map or from the tree), the
  index is exactly as it was before the call: the same map, the same tree and the same
  \<^verbatim>\<open>lastOffset\<close>. The capacity is positive, as \<^verbatim>\<open>NewTimestamp2Offset\<close> guarantees and
  \<^verbatim>\<open>Add\<close> preserves; nothing else is assumed of the state, which may be inconsistent.
\<close>

theorem Add_atomic_on_failure:
  assumes "0 < capacity m" and "Add m off ts = (m', Some e)"
  shows "offset2Timestamp m' = offset2Timestamp m \<and>
         timestamp2Offsets m' = timestamp2Offsets m \<and>
         lastOffset m' = lastOffset m \<and> m' = m"
  using assms
  by (auto simp: Add_def Add_evict_insert_def Let_def
           split: if_splits option.splits prod.splits bool.splits)

theorem Add_atomic_on_failure_witness:
  "(let m = \<lparr>capacity = 2, lastOffset = 4, offset2Timestamp = [(3, 100), (4, 500)],
              timestamp2Offsets = [\<lparr>timestamp = 100, offset = 3\<rparr>, \<lparr>timestamp = 500, offset = 4\<rparr>]\<rparr>
    in 0 < capacity m \<and> Add m 7 600 = (m, Some (NotContiguous 7 4))) \<and>
   (let m = \<lparr>capacity = 1, lastOffset = 3, offset2Timestamp = [(3, 10)], timestamp2Offsets = []\<rparr>
    in 0 < capacity m \<and> Add m 4 600 = (m, Some (OldTimestampNotFound 10 3)))"
proof -
  let ?m = "\<lparr>capacity = 2, lastOffset = 4, offset2Timestamp = [(3, 100), (4, 500)],
              timestamp2Offsets = [\<lparr>timestamp = 100, offset = 3\<rparr>, \<lparr>timestamp = 500, offset = 4\<rparr>]\<rparr>"
  let ?c = "\<lparr>capacity = 1, lastOffset = 3, offset2Timestamp = [(3, 10)], timestamp2Offsets = []\<rparr>"
  have c1: "0 < capacity ?m" and c2: "0 < capacity ?c" by simp_all
  have a1: "Add ?m 7 600 = (fst (Add ?m 7 600), Some (NotContiguous 7 4))"
    by (simp add: Add_def)
  have a2: "Add ?c 4 600 = (fst (Add ?c 4 600), Some (OldTimestampNotFound 10 3))"
    by (simp add: Add_def Add_evict_insert_def timestamp2OffsetsKeyCmp_def compare_def)
  have "fst (Add ?m 7 600) = ?m" using Add_atomic_on_failure [OF c1 a1] by simp
  moreover have "fst (Add ?c 4 600) = ?c" using Add_atomic_on_failure [OF c2 a2] by simp
  ultimately show ?thesis using a1 a2 by (simp add: Let_def)
qed

subsection \<open>The nearest-offset policy\<close>

text \<open>
  C1. In every state that an index can reach (a freshly constructed index after any
  sequence of \<^verbatim>\<open>Add\<close> calls, failed ones included), with \<open>E\<close> the retained entries:
  if some entry has a timestamp at or after the query, \<^verbatim>\<open>NearestOffset\<close> returns the
  offset of the earliest such entry, the smallest offset among equal timestamps;
  if there are entries but all are before the query, it returns the offset of the entry
  with the greatest (timestamp, offset); on an empty index it returns not-found.
  The witness is the state of section 8 of the spec, entries 0 at 100 ms and 1 at 500 ms,
  queried at 250 ms and at 600 ms: both return offset 1.
\<close>

theorem NearestOffset_policy:
  assumes "NewTimestamp2Offset c = Inr m0"
    and "m = Add_calls m0 calls"
    and "E = set (offset2Timestamp m)"
  shows "((\<exists>e\<in>E. ts \<le> snd e) \<longrightarrow> (\<exists>e. earliest_at_or_after ts E e)) \<and>
         (earliest_at_or_after ts E e \<longrightarrow> NearestOffset m ts = (fst e, True)) \<and>
         (E \<noteq> {} \<and> (\<forall>e\<in>E. snd e < ts) \<longrightarrow> (\<exists>e. latest_entry E e)) \<and>
         ((\<forall>e\<in>E. snd e < ts) \<and> latest_entry E e' \<longrightarrow> NearestOffset m ts = (fst e', True)) \<and>
         (E = {} \<longrightarrow> NearestOffset m ts = (- 1, False))"
proof -
  have inv: "t2o_inv m"
    using assms(1,2) by (simp add: NewTimestamp2Offset_inv Add_calls_inv)
  have fwd: "earliest_at_or_after ts E e \<longrightarrow> NearestOffset m ts = (fst e, True)"
  proof
    assume e: "earliest_at_or_after ts E e"
    then have "\<exists>e\<in>set (offset2Timestamp m). ts \<le> snd e"
      using assms(3) by (auto simp: earliest_at_or_after_def)
    from NearestOffset_forward[OF inv this] obtain e0 where
      "earliest_at_or_after ts E e0" "NearestOffset m ts = (fst e0, True)"
      using assms(3) by blast
    with e show "NearestOffset m ts = (fst e, True)"
      using earliest_unique by blast
  qed
  have bwd: "(\<forall>e\<in>E. snd e < ts) \<and> latest_entry E e' \<longrightarrow> NearestOffset m ts = (fst e', True)"
  proof
    assume a: "(\<forall>e\<in>E. snd e < ts) \<and> latest_entry E e'"
    then have "offset2Timestamp m \<noteq> []" "\<forall>e\<in>set (offset2Timestamp m). snd e < ts"
      using assms(3) by (auto simp: latest_entry_def)
    from NearestOffset_backward[OF inv this] obtain e0 where
      "latest_entry E e0" "NearestOffset m ts = (fst e0, True)"
      using assms(3) by blast
    with a show "NearestOffset m ts = (fst e', True)"
      using latest_unique by blast
  qed
  have ex1: "(\<exists>e\<in>E. ts \<le> snd e) \<longrightarrow> (\<exists>e. earliest_at_or_after ts E e)"
    using NearestOffset_forward[OF inv, of ts] assms(3) by blast
  have ex2: "E \<noteq> {} \<and> (\<forall>e\<in>E. snd e < ts) \<longrightarrow> (\<exists>e. latest_entry E e)"
    using NearestOffset_backward[OF inv, of ts] assms(3) by auto
  have emp: "E = {} \<longrightarrow> NearestOffset m ts = (- 1, False)"
    using NearestOffset_empty[OF inv, of ts] assms(3) by simp
  from ex1 fwd ex2 bwd emp show ?thesis by blast
qed

theorem NearestOffset_policy_witness:
  "NewTimestamp2Offset 2 =
     Inr \<lparr>capacity = 2, lastOffset = - 1, offset2Timestamp = [], timestamp2Offsets = []\<rparr> \<and>
   (let m = Add_calls \<lparr>capacity = 2, lastOffset = - 1, offset2Timestamp = [],
                       timestamp2Offsets = []\<rparr> [(0, 100), (1, 500)]
    in offset2Timestamp m = [(0, 100), (1, 500)] \<and>
       NearestOffset m 250 = (1, True) \<and>
       NearestOffset m 600 = (1, True))"
proof -
  let ?new = "\<lparr>capacity = 2, lastOffset = - 1, offset2Timestamp = [], timestamp2Offsets = []\<rparr>"
  let ?m = "Add_calls ?new [(0, 100), (1, 500)]"
  let ?E = "set (offset2Timestamp ?m)"
  have new: "NewTimestamp2Offset 2 = Inr ?new"
    by (simp add: NewTimestamp2Offset_def TreeNew_def)
  have al: "offset2Timestamp ?m = [(0, 100), (1, 500)]"
    by (simp add: Add_calls_def Add_def Add_evict_insert_def)
  have early: "earliest_at_or_after 250 ?E (1, 500)"
    unfolding al by (simp add: earliest_at_or_after_def)
  have late: "(\<forall>e\<in>?E. snd e < 600) \<and> latest_entry ?E (1, 500)"
    unfolding al by (simp add: latest_entry_def)
  have "NearestOffset ?m 250 = (1, True)"
    using NearestOffset_policy [where ts = 250 and e = "(1, 500)", OF new refl refl] early by simp
  moreover have "NearestOffset ?m 600 = (1, True)"
    using NearestOffset_policy [where ts = 600 and e' = "(1, 500)", OF new refl refl] late by simp
  ultimately show ?thesis using new al by (simp add: Let_def)
qed

subsection \<open>Bounded retention\<close>

text \<open>
  C2. Let \<open>ops\<close> be a sequence of \<^verbatim>\<open>Add\<close> calls that all succeed on a fresh index of
  capacity \<open>c\<close>. Then the offsets of \<open>ops\<close> are contiguous and non-negative, and the
  index retains exactly the last \<open>min (length ops) c\<close> of them, with their timestamps,
  in the map and in the tree. Once \<open>c\<close> entries are held, a further successful
  \<^verbatim>\<open>Add(off, ts)\<close> evicts exactly the entry of offset \<open>off - c\<close>, the oldest one, from
  both structures and appends the new one. Consequently, after adding the offsets
  \<open>0 .. N - 1\<close> with \<open>N > c\<close>, \<^verbatim>\<open>NearestOffset\<close> finds an offset for every query and
  never one below \<open>N - c\<close>.
\<close>

theorem bounded_retention:
  assumes "NewTimestamp2Offset c = Inr m0" and "Add_seq m0 ops = (m, None)"
  shows "(\<exists>first\<ge>0. map fst ops = [first .. first + int (length ops) - 1]) \<and>
         offset2Timestamp m = drop (length ops - nat c) ops \<and>
         length (offset2Timestamp m) = min (length ops) (nat c) \<and>
         set (timestamp2Offsets m) = key_of ` set (drop (length ops - nat c) ops) \<and>
         (nat c \<le> length ops \<and> Add m off ts = (m', None) \<longrightarrow>
            (\<exists>old rest. offset2Timestamp m = (off - c, old) # rest \<and>
                        offset2Timestamp m' = rest @ [(off, ts)] \<and>
                        set (timestamp2Offsets m') =
                          insert (key_of (off, ts))
                            (set (timestamp2Offsets m) - {key_of (off - c, old)}))) \<and>
         (map fst ops = [0 .. int (length ops) - 1] \<and> nat c < length ops \<longrightarrow>
            snd (NearestOffset m q) \<and> int (length ops) - c \<le> fst (NearestOffset m q))"
proof -
  let ?n = "length ops"
  let ?al = "offset2Timestamp m"
  have cpos: "0 < c" and cap0: "capacity m0 = c" and inv0: "t2o_inv m0"
    and empty0: "offset2Timestamp m0 = []"
    using assms(1) NewTimestamp2Offset_inv[OF assms(1)]
    by (auto simp: NewTimestamp2Offset_def split: if_splits)
  from Add_seq_retains[OF inv0 empty0 assms(2)] cap0
  have inv: "t2o_inv m" and cap: "capacity m = c"
    and al: "?al = drop (?n - nat c) ops"
    and keys: "map fst ops = [lastOffset m + 1 - int ?n .. lastOffset m]"
    and nn: "ops \<noteq> [] \<longrightarrow> int ?n \<le> lastOffset m + 1"
    by simp_all
  have len: "length ?al = min ?n (nat c)" using al by (simp add: min_def)
  have contiguous: "\<exists>first\<ge>0. map fst ops = [first .. first + int ?n - 1]"
  proof (cases "ops = []")
    case True
    then show ?thesis by (intro exI[of _ 0]) simp
  next
    case False
    with nn have "0 \<le> lastOffset m + 1 - int ?n" by simp
    moreover have "lastOffset m + 1 - int ?n + int ?n - 1 = lastOffset m" by simp
    ultimately show ?thesis using keys by (intro exI[of _ "lastOffset m + 1 - int ?n"]) simp
  qed
  have tree: "set (timestamp2Offsets m) = key_of ` set (drop (?n - nat c) ops)"
    using inv al by (simp add: t2o_inv_def)
  have evict: "nat c \<le> ?n \<and> Add m off ts = (m', None) \<longrightarrow>
            (\<exists>old rest. ?al = (off - c, old) # rest \<and>
                        offset2Timestamp m' = rest @ [(off, ts)] \<and>
                        set (timestamp2Offsets m') =
                          insert (key_of (off, ts))
                            (set (timestamp2Offsets m) - {key_of (off - c, old)}))"
  proof
    assume a: "nat c \<le> ?n \<and> Add m off ts = (m', None)"
    then have full: "int (length ?al) = capacity m" using len cap cpos by (auto simp: min_def)
    then have ne: "?al \<noteq> []" using cap cpos by auto
    from a Add_success_cond[of m off ts m'] ne have off: "0 \<le> off" and lo: "lastOffset m = off - 1"
      by simp_all
    from Add_at_capacity[OF inv off lo full, of ts] a cap
    show "\<exists>old rest. ?al = (off - c, old) # rest \<and>
                        offset2Timestamp m' = rest @ [(off, ts)] \<and>
                        set (timestamp2Offsets m') =
                          insert (key_of (off, ts))
                            (set (timestamp2Offsets m) - {key_of (off - c, old)})"
      by (auto simp: tree_Set_set)
  qed
  have bound: "map fst ops = [0 .. int ?n - 1] \<and> nat c < ?n \<longrightarrow>
            snd (NearestOffset m q) \<and> int ?n - c \<le> fst (NearestOffset m q)"
  proof
    assume a: "map fst ops = [0 .. int ?n - 1] \<and> nat c < ?n"
    then have ne_ops: "ops \<noteq> []" by auto
    have lenal: "int (length ?al) = c" using len a cpos by (auto simp: min_def)
    then have ne: "?al \<noteq> []" using cpos by auto
    have n1: "1 \<le> int ?n" using ne_ops by (cases ops) auto
    from a keys have eq: "[lastOffset m + 1 - int ?n .. lastOffset m] = [0 .. int ?n - 1]"
      by simp
    have "[lastOffset m + 1 - int ?n .. lastOffset m] =
            (lastOffset m + 1 - int ?n) # [lastOffset m + 1 - int ?n + 1 .. lastOffset m]"
      using n1 by (intro upto_rec1) linarith
    moreover have "[0 .. int ?n - 1] = 0 # [0 + 1 .. int ?n - 1]"
      using n1 by (intro upto_rec1) linarith
    ultimately have "lastOffset m + 1 - int ?n = 0"
      using eq by (metis list.inject)
    then have last: "lastOffset m = int ?n - 1" by simp
    from NearestOffset_in_entries[OF inv ne, of q] obtain e where
      e: "e \<in> set ?al" "NearestOffset m q = (fst e, True)" by blast
    have "fst e \<in> set (map fst ?al)" using e(1) by simp
    also have "map fst ?al = [lastOffset m + 1 - int (length ?al) .. lastOffset m]"
      using inv by (simp add: t2o_inv_def)
    finally have "int ?n - c \<le> fst e" using last lenal by simp
    with e(2) show "snd (NearestOffset m q) \<and> int ?n - c \<le> fst (NearestOffset m q)"
      by simp
  qed
  from contiguous al len tree evict bound show ?thesis by blast
qed

theorem bounded_retention_witness:
  "NewTimestamp2Offset 2 =
     Inr \<lparr>capacity = 2, lastOffset = - 1, offset2Timestamp = [], timestamp2Offsets = []\<rparr> \<and>
   (let m = \<lparr>capacity = 2, lastOffset = 2, offset2Timestamp = [(1, 500), (2, 250)],
              timestamp2Offsets = [\<lparr>timestamp = 250, offset = 2\<rparr>, \<lparr>timestamp = 500, offset = 1\<rparr>]\<rparr>
    in Add_seq \<lparr>capacity = 2, lastOffset = - 1, offset2Timestamp = [], timestamp2Offsets = []\<rparr>
         [(0, 100), (1, 500), (2, 250)] = (m, None) \<and>
       snd (Add m 3 700) = None \<and>
       offset2Timestamp (fst (Add m 3 700)) = [(2, 250), (3, 700)] \<and>
       snd (NearestOffset m 0) \<and> 1 \<le> fst (NearestOffset m 0))"
proof -
  let ?new = "\<lparr>capacity = 2, lastOffset = - 1, offset2Timestamp = [], timestamp2Offsets = []\<rparr>"
  let ?ops = "[(0, 100), (1, 500), (2, 250)] :: (int \<times> time) list"
  let ?m = "\<lparr>capacity = 2, lastOffset = 2, offset2Timestamp = [(1, 500), (2, 250)],
              timestamp2Offsets = [\<lparr>timestamp = 250, offset = 2\<rparr>, \<lparr>timestamp = 500, offset = 1\<rparr>]\<rparr>"
  have new: "NewTimestamp2Offset 2 = Inr ?new"
    by (simp add: NewTimestamp2Offset_def TreeNew_def)
  have adds: "Add_seq ?new ?ops = (?m, None)"
    by (simp add: Add_def Add_evict_insert_def timestamp2OffsetsKeyCmp_def compare_def)
  have next_add: "snd (Add ?m 3 700) = None"
    by (simp add: Add_def Add_evict_insert_def timestamp2OffsetsKeyCmp_def compare_def)
  then have add3: "Add ?m 3 700 = (fst (Add ?m 3 700), None)"
    by (metis prod.collapse)
  have ops: "map fst ?ops = [0 .. int (length ?ops) - 1]"
    by (simp add: upto_rec1)
  note r = bounded_retention [OF new adds, of 3 700 "fst (Add ?m 3 700)" 0]
  have "offset2Timestamp (fst (Add ?m 3 700)) = [(2, 250), (3, 700)]"
    using r add3 by simp
  moreover have "snd (NearestOffset ?m 0) \<and> 1 \<le> fst (NearestOffset ?m 0)"
    using r ops by simp
  ultimately show ?thesis using new adds next_add by (simp add: Let_def)
qed

end
